theory Spec2Isabelle
  imports Main "HOL-Library.Sublist"
begin

section \<open>JavaScript values and props\<close>

text \<open>
  The values a props object can hold. Numbers are modelled at their integer values
  (the throttle interval is a number of milliseconds), with \<open>NaN\<close> apart.
  A function supplied by the application is opaque: it is known by an identifier only.
\<close>

datatype jsval =
    JUndefined
  | JNull
  | JBool bool
  | JNum int
  | JNaN
  | JStr string
  | JFunc nat
  | JArr "jsval list"
  | JObj "(string \<times> jsval) list"

text \<open>JavaScript's truthiness, which \<open>&&\<close>, \<open>||\<close>, \<open>!\<close> and \<open>if\<close> test.\<close>

fun truthy :: "jsval \<Rightarrow> bool" where
  "truthy JUndefined = False"
| "truthy JNull = False"
| "truthy (JBool b) = b"
| "truthy (JNum n) = (n \<noteq> 0)"
| "truthy JNaN = False"
| "truthy (JStr s) = (s \<noteq> [])"
| "truthy (JFunc f) = True"
| "truthy (JArr xs) = True"
| "truthy (JObj kvs) = True"

definition js_and :: "jsval \<Rightarrow> jsval \<Rightarrow> jsval" where
  "js_and a b = (if truthy a then b else a)"

definition js_or :: "jsval \<Rightarrow> jsval \<Rightarrow> jsval" where
  "js_or a b = (if truthy a then a else b)"

definition js_not :: "jsval \<Rightarrow> jsval" where
  "js_not a = JBool (\<not> truthy a)"

type_synonym props = "string \<rightharpoonup> jsval"

text \<open>Reading \<open>this.props.k\<close>: a key that is not there reads as \<open>undefined\<close>.\<close>

definition get_prop :: "props \<Rightarrow> string \<Rightarrow> jsval" where
  "get_prop p k = (case p k of None \<Rightarrow> JUndefined | Some v \<Rightarrow> v)"

section \<open>The rendered element\<close>

text \<open>
  The functions \<open>render\<close> itself puts into the element's props: the empty arrow function,
  the component's own bound \<open>handleScroll\<close>, a method of the scroll responder mixin
  (named; its body is not in the source file), and \<open>throttle(f, wait)\<close>.
\<close>

datatype handler =
    Noop
  | HandleScroll
  | Mixin string
  | Throttled handler jsval

datatype pval = Val jsval | Fn handler

datatype node =
    Element (etype: string) (eref: string) (eprops: "string \<rightharpoonup> pval") (echildren: "node list")
  | Expr jsval

definition SCROLLVIEW :: string where
  "SCROLLVIEW = ''ScrollView''"

definition INNERVIEW :: string where
  "INNERVIEW = ''InnerScrollView''"

definition styles_base :: jsval where
  "styles_base = JObj [(''overflow'', JStr ''scroll''),
                       (''WebkitOverflowScrolling'', JStr ''touch''),
                       (''flex'', JNum 1)]"

definition styles_contentContainer :: jsval where
  "styles_contentContainer = JObj [(''position'', JStr ''absolute''),
                                   (''minWidth'', JStr ''100%'')]"

definition styles_contentContainerHorizontal :: jsval where
  "styles_contentContainerHorizontal = JObj [(''alignSelf'', JStr ''flex-start''),
                                             (''flexDirection'', JStr ''row'')]"

definition contentContainerStyle :: "props \<Rightarrow> jsval" where
  "contentContainerStyle p =
     JArr [styles_contentContainer,
           js_and (get_prop p ''horizontal'') styles_contentContainerHorizontal,
           get_prop p ''contentContainerStyle'']"

definition contentContainer :: "props \<Rightarrow> node" where
  "contentContainer p =
     Element ''View'' INNERVIEW
       [''style'' \<mapsto> Val (contentContainerStyle p),
        ''removeClippedSubviews'' \<mapsto> Val (get_prop p ''removeClippedSubviews''),
        ''collapsable'' \<mapsto> Val (JBool False)]
       [Expr (get_prop p ''children'')]"

definition alwaysBounceHorizontal :: "props \<Rightarrow> jsval" where
  "alwaysBounceHorizontal p =
     (if get_prop p ''alwaysBounceHorizontal'' \<noteq> JUndefined
      then get_prop p ''alwaysBounceHorizontal''
      else get_prop p ''horizontal'')"

definition alwaysBounceVertical :: "props \<Rightarrow> jsval" where
  "alwaysBounceVertical p =
     (if get_prop p ''alwaysBounceVertical'' \<noteq> JUndefined
      then get_prop p ''alwaysBounceVertical''
      else js_not (get_prop p ''horizontal''))"

text \<open>The local \<open>handleScroll\<close> of \<open>render\<close>: the empty function unless both the
  throttle interval and the callback are truthy.\<close>

definition scrollHandler :: "props \<Rightarrow> handler" where
  "scrollHandler p =
     (if truthy (js_and (get_prop p ''scrollEventThrottle'') (get_prop p ''onScroll''))
      then Throttled HandleScroll (get_prop p ''scrollEventThrottle'')
      else Noop)"

definition render_props :: "props \<Rightarrow> (string \<rightharpoonup> pval)" where
  "render_props p =
     (map_option Val \<circ> p)
       (''alwaysBounceHorizontal'' \<mapsto> Val (alwaysBounceHorizontal p),
        ''alwaysBounceVertical'' \<mapsto> Val (alwaysBounceVertical p),
        ''style'' \<mapsto> Val (JArr [styles_base, get_prop p ''style'']),
        ''onTouchStart'' \<mapsto> Fn (Mixin ''scrollResponderHandleTouchStart''),
        ''onTouchMove'' \<mapsto> Fn (Mixin ''scrollResponderHandleTouchMove''),
        ''onTouchEnd'' \<mapsto> Fn (Mixin ''scrollResponderHandleTouchEnd''),
        ''onScrollBeginDrag'' \<mapsto> Fn (Mixin ''scrollResponderHandleScrollBeginDrag''),
        ''onScrollEndDrag'' \<mapsto> Fn (Mixin ''scrollResponderHandleScrollEndDrag''),
        ''onMomentumScrollBegin'' \<mapsto> Fn (Mixin ''scrollResponderHandleMomentumScrollBegin''),
        ''onMomentumScrollEnd'' \<mapsto> Fn (Mixin ''scrollResponderHandleMomentumScrollEnd''),
        ''onStartShouldSetResponder'' \<mapsto>
           Fn (Mixin ''scrollResponderHandleStartShouldSetResponder''),
        ''onStartShouldSetResponderCapture'' \<mapsto>
           Fn (Mixin ''scrollResponderHandleStartShouldSetResponderCapture''),
        ''onScrollShouldSetResponder'' \<mapsto> Fn (scrollHandler p),
        ''onScroll'' \<mapsto> Fn Noop,
        ''onResponderGrant'' \<mapsto> Fn (Mixin ''scrollResponderHandleResponderGrant''),
        ''onResponderTerminationRequest'' \<mapsto>
           Fn (Mixin ''scrollResponderHandleTerminationRequest''),
        ''onResponderTerminate'' \<mapsto> Fn (Mixin ''scrollResponderHandleTerminate''),
        ''onResponderRelease'' \<mapsto> Fn (Mixin ''scrollResponderHandleResponderRelease''),
        ''onResponderReject'' \<mapsto> Fn (Mixin ''scrollResponderHandleResponderReject''))"

text \<open>
  \<open><View {...props} ref={SCROLLVIEW}>{contentContainer}</View>\<close>: the children written
  in the JSX replace whatever \<open>children\<close> the spread props carry. An element's children
  are held in \<open>echildren\<close>, so its props hold no \<open>children\<close> key.
\<close>

definition render :: "props \<Rightarrow> node" where
  "render p =
     Element ''View'' SCROLLVIEW ((render_props p)(''children'' := None)) [contentContainer p]"

section \<open>Event handling and imperative operations\<close>

datatype error = TypeError

text \<open>
  \<open>this.props.onScroll && this.props.onScroll(e)\<close>: the result lists the calls made to
  application callbacks, each as the callback's identifier with its argument. Calling a
  truthy value that is not a function raises.
\<close>

definition handleScroll :: "props \<Rightarrow> 'e \<Rightarrow> error + (nat \<times> 'e) list" where
  "handleScroll p e =
     (if truthy (get_prop p ''onScroll'')
      then (case get_prop p ''onScroll'' of JFunc f \<Rightarrow> Inr [(f, e)] | _ \<Rightarrow> Inl TypeError)
      else Inr [])"

text \<open>
  The scroll primitive: the DOM node behind a ref, with the two offsets as they were last
  written (the platform clamps them; the widget writes the intent). A ref that is not
  mounted gives \<open>null\<close> from \<open>findDOMNode\<close>, and writing a property of \<open>null\<close> raises.
\<close>

record dom_node =
  scrollTop :: jsval
  scrollLeft :: jsval

type_synonym refs = "string \<rightharpoonup> dom_node"

definition scrollWithoutAnimationTo :: "refs \<Rightarrow> jsval \<Rightarrow> jsval \<Rightarrow> error + refs" where
  "scrollWithoutAnimationTo r destY destX =
     (case r SCROLLVIEW of
        None \<Rightarrow> Inl TypeError
      | Some scrollView \<Rightarrow>
          Inr (r(SCROLLVIEW \<mapsto>
                 scrollView\<lparr>scrollTop := js_or destY (JNum 0),
                            scrollLeft := js_or destX (JNum 0)\<rparr>)))"

definition scrollTo :: "refs \<Rightarrow> jsval \<Rightarrow> jsval \<Rightarrow> error + refs" where
  "scrollTo r destY destX = scrollWithoutAnimationTo r destY destX"

section \<open>The scroll event throttle\<close>

text \<open>
  The function \<open>throttle\<close> is imported from the package \<open>domkit\<close>; its body is not part of the
  source file. What \<open>render\<close> does with it is stated for any throttle; the
  throttle's own guarantees are those of the specification's section 4.2, modelled here.
  The clock is explicit: every operation takes the current time in milliseconds.
\<close>

text \<open>Modelled from the spec: the \<open>ThrottleState\<close> of section 3 (the body of
  \<open>domkit/throttle\<close> is missing). Before the first forwarded call there is no
  \<open>lastInvokedAt\<close>.\<close>

record 'e ThrottleState =
  lastInvokedAt :: "int option"
  pendingArgs :: "'e option"
  intervalMs :: int

text \<open>Modelled from the spec: the state when the subscription is established (the body
  of \<open>domkit/throttle\<close> is missing).\<close>

definition throttle :: "int \<Rightarrow> 'e ThrottleState" where
  "throttle wait = \<lparr>lastInvokedAt = None, pendingArgs = None, intervalMs = wait\<rparr>"

text \<open>Modelled from the spec: the test \<open>now - lastInvokedAt >= intervalMs\<close> of section
  4.2 (the body of \<open>domkit/throttle\<close> is missing); it holds when nothing was forwarded
  yet.\<close>

definition elapsed :: "int \<Rightarrow> 'e ThrottleState \<Rightarrow> bool" where
  "elapsed now st =
     (case lastInvokedAt st of None \<Rightarrow> True | Some l \<Rightarrow> intervalMs st \<le> now - l)"

text \<open>Modelled from the spec: \<open>observe(event)\<close> of section 4.2 at time \<open>now\<close> (the body
  of \<open>domkit/throttle\<close> is missing): the events this call forwards, and the new state.\<close>

definition observe :: "int \<Rightarrow> 'e \<Rightarrow> 'e ThrottleState \<Rightarrow> 'e list \<times> 'e ThrottleState" where
  "observe now e st =
     (if intervalMs st = 0 then ([e], st)
      else if elapsed now st
      then ([e], st\<lparr>lastInvokedAt := Some now, pendingArgs := None\<rparr>)
      else ([], st\<lparr>pendingArgs := Some e\<rparr>))"

text \<open>Modelled from the spec: the time of the scheduled deferred forward of section 4.2
  (the body of \<open>domkit/throttle\<close> is missing). One is scheduled exactly while
  \<open>pendingArgs\<close> holds an event, at \<open>lastInvokedAt + intervalMs\<close>.\<close>

definition deadline :: "'e ThrottleState \<Rightarrow> int option" where
  "deadline st =
     (case pendingArgs st of
        None \<Rightarrow> None
      | Some e \<Rightarrow> (case lastInvokedAt st of None \<Rightarrow> None
                                           | Some l \<Rightarrow> Some (l + intervalMs st)))"

text \<open>Modelled from the spec: the deferred callback of section 4.2 firing at time \<open>now\<close>
  (the body of \<open>domkit/throttle\<close> is missing): it forwards the latest pending event.\<close>

definition fire :: "int \<Rightarrow> 'e ThrottleState \<Rightarrow> 'e list \<times> 'e ThrottleState" where
  "fire now st =
     (case pendingArgs st of
        None \<Rightarrow> ([], st)
      | Some e \<Rightarrow> ([e], st\<lparr>lastInvokedAt := Some now, pendingArgs := None\<rparr>))"

text \<open>Modelled from the spec: the host's timer facility of section 5 (it is not part of the
  source file). Time passes up to \<open>now\<close>: a deferred forward whose deadline lies before
  \<open>now\<close> fires at its deadline; an event arriving exactly at the deadline is observed
  first, as in the scenario of section 8. Forwarded calls are listed with their time.\<close>

definition advance :: "int \<Rightarrow> 'e ThrottleState \<Rightarrow> (int \<times> 'e) list \<times> 'e ThrottleState" where
  "advance now st =
     (case deadline st of
        None \<Rightarrow> ([], st)
      | Some d \<Rightarrow> if d < now
                  then (map (Pair d) (fst (fire d st)), snd (fire d st))
                  else ([], st))"

text \<open>Modelled from the spec: the host's event loop of section 5 (it is not part of the
  source file), delivering a sequence of scroll notifications, each with its arrival time, to
  \<open>observe\<close>, and letting due timers fire in between.\<close>

fun run :: "'e ThrottleState \<Rightarrow> (int \<times> 'e) list \<Rightarrow> (int \<times> 'e) list \<times> 'e ThrottleState" where
  "run st [] = ([], st)"
| "run st ((t, e) # xs) =
     (let a = advance t st;
          b = observe t e (snd a);
          c = run (snd b) xs
      in (fst a @ map (Pair t) (fst b) @ fst c, snd c))"

text \<open>Modelled from the spec: the host's timer facility of section 5 (it is not part of the
  source file) when no further event arrives: a scheduled deferred forward fires at its
  deadline.\<close>

definition settle :: "'e ThrottleState \<Rightarrow> (int \<times> 'e) list \<times> 'e ThrottleState" where
  "settle st =
     (case deadline st of
        None \<Rightarrow> ([], st)
      | Some d \<Rightarrow> (map (Pair d) (fst (fire d st)), snd (fire d st)))"

text \<open>Modelled from the spec: all the calls a subscription in state \<open>st\<close> forwards for a
  sequence of notifications, each with the time of the call (the body of
  \<open>domkit/throttle\<close> is missing).\<close>

definition forwards :: "'e ThrottleState \<Rightarrow> (int \<times> 'e) list \<Rightarrow> (int \<times> 'e) list" where
  "forwards st tr = fst (run st tr) @ fst (settle (snd (run st tr)))"

text \<open>Modelled from the spec: \<open>throttle(f, wait)\<close> as a function from the notifications
  observed to the calls of \<open>f\<close> (the body of \<open>domkit/throttle\<close> is missing).\<close>

definition throttle_forwards :: "int \<Rightarrow> (int \<times> 'e) list \<Rightarrow> (int \<times> 'e) list" where
  "throttle_forwards wait tr = forwards (throttle wait) tr"

section \<open>Scroll notifications through the rendered handlers\<close>

text \<open>
  What a handler built by \<open>render\<close> does with a sequence of scroll notifications, each
  with its arrival time: the invocations of \<open>handleScroll\<close> that happen, with their time
  and outcome. The throttle is a parameter \<open>thr\<close>: from the interval and the
  notifications observed to the calls forwarded. A mixin method and a throttle whose
  interval is not a number are outside the model (\<open>None\<close>).
\<close>

fun handler_run ::
  "(int \<Rightarrow> (int \<times> 'e) list \<Rightarrow> (int \<times> 'e) list) \<Rightarrow> props \<Rightarrow> handler \<Rightarrow> (int \<times> 'e) list
     \<Rightarrow> (int \<times> (error + (nat \<times> 'e) list)) list option" where
  "handler_run thr p Noop tr = Some []"
| "handler_run thr p HandleScroll tr = Some (map (\<lambda>(t, e). (t, handleScroll p e)) tr)"
| "handler_run thr p (Throttled h (JNum n)) tr = handler_run thr p h (thr n tr)"
| "handler_run thr p (Throttled h w) tr = None"
| "handler_run thr p (Mixin m) tr = None"

definition element_handler :: "node \<Rightarrow> string \<Rightarrow> handler option" where
  "element_handler el k =
     (case el of
        Element ty r ps cs \<Rightarrow> (case ps k of Some (Fn h) \<Rightarrow> Some h | _ \<Rightarrow> None)
      | Expr v \<Rightarrow> None)"

text \<open>Modelled from the spec: the host's dispatch of scroll notifications (the view
  component and the event system are not part of the source file). Every scroll notification
  of the scroll view's element is delivered to the two props \<open>render\<close> sets for it,
  \<open>onScroll\<close> and \<open>onScrollShouldSetResponder\<close>.\<close>

definition scroll_notifications ::
  "(int \<Rightarrow> (int \<times> 'e) list \<Rightarrow> (int \<times> 'e) list) \<Rightarrow> props \<Rightarrow> (int \<times> 'e) list
     \<Rightarrow> (int \<times> (error + (nat \<times> 'e) list)) list option" where
  "scroll_notifications thr p tr =
     (case element_handler (render p) ''onScroll'' of
        None \<Rightarrow> None
      | Some h1 \<Rightarrow>
         (case element_handler (render p) ''onScrollShouldSetResponder'' of
            None \<Rightarrow> None
          | Some h2 \<Rightarrow>
             (case handler_run thr p h1 tr of
                None \<Rightarrow> None
              | Some a \<Rightarrow>
                 (case handler_run thr p h2 tr of
                    None \<Rightarrow> None
                  | Some b \<Rightarrow> Some (a @ b)))))"

section \<open>The responder arbiter\<close>

text \<open>
  The handlers that \<open>render\<close> passes for the touch and responder events are methods of
  the scroll responder mixin, and the registry of the current responder belongs to the
  host's event system: neither is part of the source file. The ownership protocol is the one of
  the specification's sections 4.1, 5 and 9, over any number of widgets, each known by a
  number.
\<close>

text \<open>Modelled from the spec: the \<open>phase\<close> of a widget's \<open>ResponderState\<close>, section 3
  (the scroll responder mixin is missing).\<close>

datatype phase = Idle | Claiming | Active | Terminating

text \<open>Modelled from the spec: the lifecycle notifications of section 4.1 that a widget
  receives (the scroll responder mixin is missing).\<close>

datatype notification =
    OnResponderGrant nat
  | OnResponderReject nat
  | OnResponderTerminate nat
  | OnResponderRelease nat

text \<open>Modelled from the spec: the shared registry slot of section 5 with the phase of
  every widget (the host's responder registry is missing).\<close>

record registry =
  ownerId :: "nat option"
  phase :: "nat \<Rightarrow> phase"

text \<open>Modelled from the spec: the two policy hooks of section 6, \<open>shouldSetResponder\<close> and
  the answer to \<open>requestTermination\<close>, per widget (the scroll responder mixin is
  missing).\<close>

record policy =
  shouldSetResponder :: "nat \<Rightarrow> bool"
  allowTermination :: "nat \<Rightarrow> bool"

text \<open>Modelled from the spec: the touch events of section 6, for a widget; a move says
  whether the movement since the touch began is past the claim threshold of section 4.1.
  Unmounting is the teardown of section 5 (the host's event system is missing).\<close>

datatype touch = TouchStart nat | TouchMove nat bool | TouchEnd nat | Unmount nat

text \<open>Modelled from the spec: the registry when no widget has been touched (the host's
  responder registry is missing).\<close>

definition initial_registry :: registry where
  "initial_registry = \<lparr>ownerId = None, phase = (\<lambda>w. Idle)\<rparr>"

text \<open>Modelled from the spec: \<open>requestTerminate(id)\<close> of section 9 with the rule of
  section 4.1 (the host's responder registry is missing): an active owner whose policy
  allows it is notified, passes through \<open>Terminating\<close> and ends \<open>Idle\<close> with the slot
  cleared; a request in any other phase is denied.\<close>

definition requestTerminate ::
  "policy \<Rightarrow> nat \<Rightarrow> registry \<Rightarrow> bool \<times> notification list \<times> registry" where
  "requestTerminate pol w st =
     (if phase st w = Active \<and> allowTermination pol w
      then (True, [OnResponderTerminate w],
            st\<lparr>ownerId := None, phase := (phase st)(w := Idle)\<rparr>)
      else (False, [], st))"

text \<open>Modelled from the spec: the transition from \<open>Claiming\<close> to \<open>Active\<close> of section
  4.1 (the host's responder registry is missing).\<close>

definition grant :: "nat \<Rightarrow> registry \<Rightarrow> notification list \<times> registry" where
  "grant w st =
     ([OnResponderGrant w], st\<lparr>ownerId := Some w, phase := (phase st)(w := Active)\<rparr>)"

text \<open>Modelled from the spec: the transition from \<open>Claiming\<close> to \<open>Idle\<close> of section 4.1
  (the host's responder registry is missing).\<close>

definition reject :: "nat \<Rightarrow> registry \<Rightarrow> notification list \<times> registry" where
  "reject w st = ([OnResponderReject w], st\<lparr>phase := (phase st)(w := Idle)\<rparr>)"

text \<open>Modelled from the spec: \<open>tryClaim(id)\<close> of section 9 (the host's responder registry
  is missing): a free slot is granted; a slot held by another widget is granted after
  that widget yields in a termination-request round, and the claim is rejected if it
  refuses.\<close>

definition tryClaim :: "policy \<Rightarrow> nat \<Rightarrow> registry \<Rightarrow> notification list \<times> registry" where
  "tryClaim pol w st =
     (case ownerId st of
        None \<Rightarrow> grant w st
      | Some owner \<Rightarrow>
          if owner = w then ([], st)
          else (case requestTerminate pol owner st of
                  (yielded, ns, st') \<Rightarrow>
                    if yielded then (ns @ fst (grant w st'), snd (grant w st'))
                    else (ns @ fst (reject w st'), snd (reject w st'))))"

text \<open>Modelled from the spec: \<open>release(id)\<close> of section 9 (the host's responder registry
  is missing).\<close>

definition release :: "nat \<Rightarrow> registry \<Rightarrow> notification list \<times> registry" where
  "release w st =
     (if ownerId st = Some w
      then ([OnResponderRelease w], st\<lparr>ownerId := None, phase := (phase st)(w := Idle)\<rparr>)
      else ([], st))"

text \<open>Modelled from the spec: the transitions of section 4.1 on one touch event (the
  scroll responder mixin is missing). A touch start makes an eligible idle widget a
  claimant; the claim is attempted at the first move past the threshold; a touch end
  releases an active widget and withdraws a claimant; unmounting releases as a touch end
  does.\<close>

fun arbiter_step :: "policy \<Rightarrow> touch \<Rightarrow> registry \<Rightarrow> notification list \<times> registry" where
  "arbiter_step pol (TouchStart w) st =
     (if phase st w = Idle \<and> shouldSetResponder pol w
      then ([], st\<lparr>phase := (phase st)(w := Claiming)\<rparr>)
      else ([], st))"
| "arbiter_step pol (TouchMove w past_threshold) st =
     (if phase st w = Claiming \<and> past_threshold then tryClaim pol w st else ([], st))"
| "arbiter_step pol (TouchEnd w) st =
     (case phase st w of
        Active \<Rightarrow> release w st
      | Claiming \<Rightarrow> ([], st\<lparr>phase := (phase st)(w := Idle)\<rparr>)
      | _ \<Rightarrow> ([], st))"
| "arbiter_step pol (Unmount w) st =
     (case phase st w of
        Active \<Rightarrow> release w st
      | _ \<Rightarrow> ([], st\<lparr>phase := (phase st)(w := Idle)\<rparr>))"

text \<open>Modelled from the spec: the host dispatching a sequence of touch events in order,
  section 5 (the host's event system is missing).\<close>

fun arbiter_run :: "policy \<Rightarrow> registry \<Rightarrow> touch list \<Rightarrow> notification list \<times> registry" where
  "arbiter_run pol st [] = ([], st)"
| "arbiter_run pol st (ev # evs) =
     (fst (arbiter_step pol ev st) @ fst (arbiter_run pol (snd (arbiter_step pol ev st)) evs),
      snd (arbiter_run pol (snd (arbiter_step pol ev st)) evs))"

text \<open>The registry's invariant: the widgets in phase \<open>Active\<close> are exactly the owner of
  the slot.\<close>

definition owner_is_active :: "registry \<Rightarrow> bool" where
  "owner_is_active st = (\<forall>w. (phase st w = Active) = (ownerId st = Some w))"

text \<open>An invariant of a throttle subscription: a pending event has a forwarded call
  before it.\<close>

definition pending_timed :: "'e ThrottleState \<Rightarrow> bool" where
  "pending_timed st = (pendingArgs st = None \<or> lastInvokedAt st \<noteq> None)"

section \<open>Observations and example inputs\<close>

text \<open>Reading a value and the content container's style off the rendered element, and
  the two scroll offsets off the scroll primitive.\<close>

definition element_val :: "node \<Rightarrow> string \<Rightarrow> jsval option" where
  "element_val el k =
     (case el of
        Element ty r ps cs \<Rightarrow> (case ps k of Some (Val v) \<Rightarrow> Some v | _ \<Rightarrow> None)
      | Expr v \<Rightarrow> None)"

definition content_container_style :: "props \<Rightarrow> jsval option" where
  "content_container_style p =
     (case echildren (render p) of [c] \<Rightarrow> element_val c ''style'' | _ \<Rightarrow> None)"

definition horizontal_offset :: "refs \<Rightarrow> jsval option" where
  "horizontal_offset r = map_option scrollLeft (r SCROLLVIEW)"

definition vertical_offset :: "refs \<Rightarrow> jsval option" where
  "vertical_offset r = map_option scrollTop (r SCROLLVIEW)"

text \<open>The pair (horizontal, vertical) of offsets after an operation that did not raise.\<close>

definition offsets_after :: "error + refs \<Rightarrow> (jsval option \<times> jsval option) option" where
  "offsets_after res =
     (case res of Inl err \<Rightarrow> None
                | Inr r \<Rightarrow> Some (horizontal_offset r, vertical_offset r))"

definition ex_bounce :: props where
  "ex_bounce = [''horizontal'' \<mapsto> JBool True, ''alwaysBounceHorizontal'' \<mapsto> JBool False]"

definition ex_mounted :: refs where
  "ex_mounted = [SCROLLVIEW \<mapsto> \<lparr>scrollTop = JNum 0, scrollLeft = JNum 0\<rparr>]"

definition ex_styled :: props where
  "ex_styled = [''contentContainerStyle'' \<mapsto> JObj [(''paddingVertical'', JNum 20)]]"

definition ex_plain :: props where
  "ex_plain = Map.empty"

definition ex_unthrottled :: props where
  "ex_unthrottled = [''onScroll'' \<mapsto> JFunc 7, ''scrollEventThrottle'' \<mapsto> JNum 0]"

definition ex_negative :: props where
  "ex_negative = [''onScroll'' \<mapsto> JFunc 7, ''scrollEventThrottle'' \<mapsto> JNum (- 5)]"

definition ex_negative_bad :: props where
  "ex_negative_bad = [''onScroll'' \<mapsto> JStr ''x'', ''scrollEventThrottle'' \<mapsto> JNum (- 5)]"

definition ex_negative_silent :: props where
  "ex_negative_silent = [''scrollEventThrottle'' \<mapsto> JNum (- 5)]"

definition ex_throttled :: props where
  "ex_throttled = [''onScroll'' \<mapsto> JFunc 7, ''scrollEventThrottle'' \<mapsto> JNum 100]"

definition ex_burst :: "(int \<times> string) list" where
  "ex_burst = [(0, ''a''), (50, ''b'')]"

definition ex_bursts :: "(int \<times> string) list" where
  "ex_bursts = [(0, ''a''), (50, ''b''), (300, ''c'')]"

definition permissive :: policy where
  "permissive = \<lparr>shouldSetResponder = (\<lambda>w. True), allowTermination = (\<lambda>w. True)\<rparr>"

definition ex_touches :: "touch list" where
  "ex_touches = [TouchStart 1, TouchMove 1 True, TouchStart 2]"

section \<open>What render puts into the element\<close>

lemma render_scroll_handler:
  "element_handler (render p) ''onScrollShouldSetResponder'' = Some (scrollHandler p)"
  by (simp add: element_handler_def render_def render_props_def)

lemma render_onScroll:
  "element_handler (render p) ''onScroll'' = Some Noop"
  by (simp add: element_handler_def render_def render_props_def)

lemma render_alwaysBounceHorizontal:
  "element_val (render p) ''alwaysBounceHorizontal'' = Some (alwaysBounceHorizontal p)"
  by (simp add: element_val_def render_def render_props_def)

lemma render_alwaysBounceVertical:
  "element_val (render p) ''alwaysBounceVertical'' = Some (alwaysBounceVertical p)"
  by (simp add: element_val_def render_def render_props_def)

lemma render_content_style:
  "content_container_style p = Some (contentContainerStyle p)"
  by (simp add: content_container_style_def render_def contentContainer_def element_val_def)

section \<open>The bounce defaults\<close>

text \<open>
  C9. In the rendered element, \<open>alwaysBounceHorizontal\<close> is the value of \<open>horizontal\<close>
  when the prop is undefined and \<open>alwaysBounceVertical\<close> is the negation of \<open>horizontal\<close>
  when that prop is undefined; a prop that is provided is passed through unchanged.
\<close>

theorem alwaysBounce_defaults:
  "element_val (render p) ''alwaysBounceHorizontal'' =
     Some (if get_prop p ''alwaysBounceHorizontal'' = JUndefined
           then get_prop p ''horizontal''
           else get_prop p ''alwaysBounceHorizontal'') \<and>
   element_val (render p) ''alwaysBounceVertical'' =
     Some (if get_prop p ''alwaysBounceVertical'' = JUndefined
           then JBool (\<not> truthy (get_prop p ''horizontal''))
           else get_prop p ''alwaysBounceVertical'')"
  by (simp add: render_alwaysBounceHorizontal render_alwaysBounceVertical
      alwaysBounceHorizontal_def alwaysBounceVertical_def js_not_def)

theorem alwaysBounce_defaults_witness:
  "element_val (render ex_bounce) ''alwaysBounceHorizontal'' = Some (JBool False) \<and>
   element_val (render ex_bounce) ''alwaysBounceVertical'' = Some (JBool False)"
  using alwaysBounce_defaults [of ex_bounce]
  by (simp add: ex_bounce_def get_prop_def)

section \<open>handleScroll without a callback\<close>

text \<open>
  C10. For every scroll event, when the \<open>onScroll\<close> prop is absent, \<open>handleScroll\<close>
  returns normally and has called nothing.
\<close>

theorem handleScroll_without_onScroll:
  "get_prop p ''onScroll'' = JUndefined \<Longrightarrow> handleScroll p e = Inr []"
  by (simp add: handleScroll_def)

theorem handleScroll_without_onScroll_witness:
  "get_prop Map.empty ''onScroll'' = JUndefined \<and> handleScroll Map.empty (42::nat) = Inr []"
  using handleScroll_without_onScroll [of Map.empty "42::nat"]
  by (simp add: get_prop_def)

section \<open>scrollTo\<close>

text \<open>
  C5, as stated, at \<open>scrollTo(10, 20)\<close> read as \<open>scrollTo(x, y)\<close>: the horizontal offset
  does not become 10 and the vertical one 20.
\<close>

theorem scrollTo_xy_counterexample:
  "offsets_after (scrollTo ex_mounted (JNum 10) (JNum 20))
     \<noteq> Some (Some (JNum 10), Some (JNum 20))"
  by (simp add: offsets_after_def scrollTo_def scrollWithoutAnimationTo_def ex_mounted_def
      horizontal_offset_def vertical_offset_def js_or_def)

text \<open>
  C5, amended. \<open>scrollTo(destY, destX)\<close> on a mounted scroll view writes, in one step,
  its first argument to the vertical offset and its second to the horizontal offset, each
  replaced by 0 when it is falsy or left out; it raises exactly when the scroll view is
  not mounted.
\<close>

theorem scrollTo_sets_top_then_left:
  "offsets_after (scrollTo r destY destX) =
     (case r SCROLLVIEW of
        None \<Rightarrow> None
      | Some n \<Rightarrow> Some (Some (if truthy destX then destX else JNum 0),
                        Some (if truthy destY then destY else JNum 0))) \<and>
   (scrollTo r destY destX = Inl TypeError) = (r SCROLLVIEW = None)"
  by (simp add: offsets_after_def scrollTo_def scrollWithoutAnimationTo_def
      horizontal_offset_def vertical_offset_def js_or_def split: option.splits)

theorem scrollTo_sets_top_then_left_witness:
  "offsets_after (scrollTo ex_mounted (JNum 10) (JNum 20))
     = Some (Some (JNum 20), Some (JNum 10))"
  using scrollTo_sets_top_then_left [of ex_mounted "JNum 10" "JNum 20"]
  by (simp add: ex_mounted_def)

section \<open>The content container's style\<close>

text \<open>
  C6, as stated: two configurations with the same \<open>horizontal\<close>, \<open>centerContent\<close>,
  \<open>alwaysBounceHorizontal\<close> and \<open>alwaysBounceVertical\<close> get different directives, and
  turning \<open>centerContent\<close> on or off changes nothing.
\<close>

theorem content_style_counterexample:
  "get_prop ex_styled ''horizontal'' = get_prop ex_plain ''horizontal'' \<and>
   get_prop ex_styled ''centerContent'' = get_prop ex_plain ''centerContent'' \<and>
   get_prop ex_styled ''alwaysBounceHorizontal'' = get_prop ex_plain ''alwaysBounceHorizontal'' \<and>
   get_prop ex_styled ''alwaysBounceVertical'' = get_prop ex_plain ''alwaysBounceVertical'' \<and>
   content_container_style ex_styled \<noteq> content_container_style ex_plain \<and>
   content_container_style (ex_plain(''centerContent'' \<mapsto> JBool True)) =
     content_container_style (ex_plain(''centerContent'' \<mapsto> JBool False))"
  by (simp add: render_content_style contentContainerStyle_def get_prop_def
      ex_styled_def ex_plain_def)

text \<open>
  C6, amended. The content container's style is a function of \<open>horizontal\<close> and of the
  caller's \<open>contentContainerStyle\<close> alone: the base style (absolute position, minimal
  width 100%), then the row style (\<open>alignSelf: flex-start\<close>, \<open>flexDirection: row\<close>) when
  \<open>horizontal\<close> is truthy, then the caller's style. Setting \<open>centerContent\<close>,
  \<open>alwaysBounceHorizontal\<close> or \<open>alwaysBounceVertical\<close> does not change it.
\<close>

theorem content_style_function_of:
  "content_container_style p =
     Some (JArr [JObj [(''position'', JStr ''absolute''), (''minWidth'', JStr ''100%'')],
                 (if truthy (get_prop p ''horizontal'')
                  then JObj [(''alignSelf'', JStr ''flex-start''), (''flexDirection'', JStr ''row'')]
                  else get_prop p ''horizontal''),
                 get_prop p ''contentContainerStyle'']) \<and>
   content_container_style (p(''centerContent'' \<mapsto> v)) = content_container_style p \<and>
   content_container_style (p(''alwaysBounceHorizontal'' \<mapsto> v)) = content_container_style p \<and>
   content_container_style (p(''alwaysBounceVertical'' \<mapsto> v)) = content_container_style p"
  by (simp add: render_content_style contentContainerStyle_def get_prop_def js_and_def
      styles_contentContainer_def styles_contentContainerHorizontal_def)

theorem content_style_function_of_witness:
  "content_container_style [''horizontal'' \<mapsto> JBool True, ''centerContent'' \<mapsto> JBool True] =
     Some (JArr [JObj [(''position'', JStr ''absolute''), (''minWidth'', JStr ''100%'')],
                 JObj [(''alignSelf'', JStr ''flex-start''), (''flexDirection'', JStr ''row'')],
                 JUndefined])"
  using content_style_function_of
    [of "[''horizontal'' \<mapsto> JBool True, ''centerContent'' \<mapsto> JBool True]" JNull]
  by (simp add: get_prop_def)

section \<open>A throttle interval of zero\<close>

text \<open>
  C1. With a callback and the throttle interval 0, every scroll event should reach the
  application's \<open>onScroll\<close> once. In the code it does not: \<open>0 && onScroll\<close> is falsy,
  both scroll props of the rendered element are the empty function, and of two scroll
  events none is forwarded.
\<close>

theorem zero_interval_drops_events:
  "element_handler (render ex_unthrottled) ''onScrollShouldSetResponder'' = Some Noop \<and>
   element_handler (render ex_unthrottled) ''onScroll'' = Some Noop \<and>
   scroll_notifications throttle_forwards ex_unthrottled [(0, ''a''), (5, ''b'')] = Some [] \<and>
   scroll_notifications throttle_forwards ex_unthrottled [(0, ''a''), (5, ''b'')]
     \<noteq> Some [(0, Inr [(7, ''a'')]), (5, Inr [(7, ''b'')])]"
  by (simp add: scroll_notifications_def render_scroll_handler render_onScroll
      scrollHandler_def js_and_def get_prop_def ex_unthrottled_def)

section \<open>The throttle of the specification\<close>

lemma run_append:
  "run st (xs @ ys) =
     (fst (run st xs) @ fst (run (snd (run st xs)) ys), snd (run (snd (run st xs)) ys))"
  by (induction xs arbitrary: st) (auto simp: Let_def)

lemma intervalMs_fire [simp]: "intervalMs (snd (fire d st)) = intervalMs st"
  by (simp add: fire_def split: option.splits)

lemma intervalMs_advance [simp]: "intervalMs (snd (advance t st)) = intervalMs st"
  by (simp add: advance_def split: option.splits)

lemma intervalMs_observe [simp]: "intervalMs (snd (observe t e st)) = intervalMs st"
  by (simp add: observe_def)

lemma intervalMs_run [simp]: "intervalMs (snd (run st tr)) = intervalMs st"
  by (induction tr arbitrary: st) (auto simp: Let_def)

lemma forwards_Nil: "forwards st [] = fst (settle st)"
  by (simp add: forwards_def)

lemma forwards_Cons:
  "forwards st ((t, e) # xs) =
     fst (advance t st) @ map (Pair t) (fst (observe t e (snd (advance t st)))) @
     forwards (snd (observe t e (snd (advance t st)))) xs"
  by (simp add: forwards_def Let_def)

lemma forwards_append:
  "forwards st (xs @ ys) = fst (run st xs) @ forwards (snd (run st xs)) ys"
  by (simp add: forwards_def run_append)

text \<open>With a negative interval every event of a time-ordered sequence is forwarded at
  once.\<close>

lemma run_negative:
  "intervalMs st < 0 \<Longrightarrow> sorted (map fst tr) \<Longrightarrow> pendingArgs st = None \<Longrightarrow>
   (\<And>l c. lastInvokedAt st = Some l \<Longrightarrow> c \<in> set tr \<Longrightarrow> l \<le> fst c) \<Longrightarrow>
   fst (run st tr) = tr \<and> pendingArgs (snd (run st tr)) = None"
proof (induction tr arbitrary: st)
  case Nil
  then show ?case by simp
next
  case (Cons x xs)
  obtain t e where x: "x = (t, e)" by (cases x)
  have adv: "advance t st = ([], st)"
    using Cons.prems(3) by (simp add: advance_def deadline_def)
  have el: "elapsed t st"
    using Cons.prems(1) Cons.prems(4)[of _ x] x
    by (auto simp: elapsed_def split: option.splits)
  let ?s = "st\<lparr>lastInvokedAt := Some t, pendingArgs := None\<rparr>"
  have obs: "observe t e st = ([e], ?s)"
    using Cons.prems(1) el by (simp add: observe_def)
  have "fst (run ?s xs) = xs \<and> pendingArgs (snd (run ?s xs)) = None"
  proof (rule Cons.IH)
    show "intervalMs ?s < 0" using Cons.prems(1) by simp
    show "sorted (map fst xs)" using Cons.prems(2) by simp
    show "pendingArgs ?s = None" by simp
    fix l c assume "lastInvokedAt ?s = Some l" "c \<in> set xs"
    then show "l \<le> fst c" using Cons.prems(2) x by auto
  qed
  then show ?case using adv obs x by (simp add: Let_def)
qed

lemma forwards_negative:
  assumes "n < 0" "sorted (map fst tr)"
  shows "forwards (throttle n) tr = tr"
proof -
  have "fst (run (throttle n) tr) = tr \<and> pendingArgs (snd (run (throttle n) tr)) = None"
    by (rule run_negative) (use assms in \<open>simp_all add: throttle_def\<close>)
  then show ?thesis by (simp add: forwards_def settle_def deadline_def)
qed

text \<open>Two forwarded calls are at least an interval apart.\<close>

lemma forwards_spaced:
  "intervalMs st = I \<Longrightarrow> 0 < I \<Longrightarrow>
   sorted_wrt (\<lambda>a b. I \<le> b - a) (map fst (forwards st tr)) \<and>
   (\<forall>l. lastInvokedAt st = Some l \<longrightarrow> (\<forall>c \<in> set (forwards st tr). l + I \<le> fst c))"
proof (induction tr arbitrary: st)
  case Nil
  then show ?case
    by (auto simp: forwards_Nil settle_def deadline_def fire_def split: option.splits)
next
  case (Cons x xs)
  obtain t e where x: "x = (t, e)" by (cases x)
  let ?a = "snd (advance t st)"
  let ?b = "snd (observe t e ?a)"
  have ib: "intervalMs ?b = I" using Cons.prems(1) by simp
  note IH = Cons.IH [OF ib Cons.prems(2)]
  show ?case
    using IH Cons.prems unfolding x forwards_Cons
    by (auto simp: advance_def observe_def fire_def deadline_def elapsed_def
        sorted_wrt_append split: option.splits if_splits)
qed

text \<open>Invariants of a subscription.\<close>

lemma pending_timed_step:
  "pending_timed st \<Longrightarrow> pending_timed (snd (observe t e (snd (advance t st))))"
  by (auto simp: pending_timed_def advance_def observe_def fire_def deadline_def elapsed_def
      split: option.splits if_splits)

lemma pending_timed_run:
  "pending_timed st \<Longrightarrow> pending_timed (snd (run st tr))"
proof (induction tr arbitrary: st)
  case Nil
  then show ?case by simp
next
  case (Cons x xs)
  obtain t e where x: "x = (t, e)" by (cases x)
  show ?case unfolding x
    using Cons.IH [OF pending_timed_step [OF Cons.prems, of t e]] by (simp add: Let_def)
qed

lemma last_step:
  "lastInvokedAt (snd (observe t e (snd (advance t st)))) = Some l \<Longrightarrow>
   lastInvokedAt st = Some l \<or>
   l \<in> fst ` set (fst (advance t st) @ map (Pair t) (fst (observe t e (snd (advance t st)))))"
  by (auto simp: advance_def observe_def fire_def deadline_def elapsed_def
      split: option.splits if_splits)

lemma last_run:
  "lastInvokedAt (snd (run st tr)) = Some l \<Longrightarrow>
   lastInvokedAt st = Some l \<or> l \<in> fst ` set (fst (run st tr))"
proof (induction tr arbitrary: st)
  case Nil
  then show ?case by simp
next
  case (Cons x xs)
  obtain t e where x: "x = (t, e)" by (cases x)
  let ?b = "snd (observe t e (snd (advance t st)))"
  from Cons.prems have "lastInvokedAt (snd (run ?b xs)) = Some l"
    by (simp add: x Let_def)
  from Cons.IH [OF this]
  have "lastInvokedAt ?b = Some l \<or> l \<in> fst ` set (fst (run ?b xs))" .
  then show ?case
  proof
    assume "lastInvokedAt ?b = Some l"
    from last_step [OF this] show ?thesis
      by (auto simp: x Let_def)
  next
    assume "l \<in> fst ` set (fst (run ?b xs))"
    then show ?thesis by (auto simp: x Let_def)
  qed
qed

lemma last_bounded_step:
  "(\<And>l. lastInvokedAt st = Some l \<Longrightarrow> l \<le> T) \<Longrightarrow> t \<le> T \<Longrightarrow>
   lastInvokedAt (snd (observe t e (snd (advance t st)))) = Some l' \<Longrightarrow> l' \<le> T"
  by (auto simp: advance_def observe_def fire_def deadline_def elapsed_def
      split: option.splits if_splits)

lemma last_bounded_run:
  "(\<And>l. lastInvokedAt st = Some l \<Longrightarrow> l \<le> T) \<Longrightarrow> (\<And>c. c \<in> set tr \<Longrightarrow> fst c \<le> T) \<Longrightarrow>
   lastInvokedAt (snd (run st tr)) = Some l' \<Longrightarrow> l' \<le> T"
proof (induction tr arbitrary: st)
  case Nil
  then show ?case by simp
next
  case (Cons x xs)
  obtain t e where x: "x = (t, e)" by (cases x)
  let ?b = "snd (observe t e (snd (advance t st)))"
  have tT: "t \<le> T" using Cons.prems(2)[of x] x by simp
  have b: "\<And>l. lastInvokedAt ?b = Some l \<Longrightarrow> l \<le> T"
    using last_bounded_step [of st T t] Cons.prems(1) tT by blast
  have "lastInvokedAt (snd (run ?b xs)) = Some l'"
    using Cons.prems(3) by (simp add: x Let_def)
  then show ?case
    using Cons.IH [of ?b] b Cons.prems(2) by auto
qed

text \<open>An event that arrives when every earlier call lies an interval back is forwarded
  at once.\<close>

lemma quiet_forwarded:
  assumes I: "0 < I"
    and quiet: "\<And>c. c \<in> set (forwards (throttle I) xs) \<Longrightarrow> fst c + I \<le> t"
  shows "(t, e) \<in> set (forwards (throttle I) (xs @ (t, e) # ys))"
proof -
  let ?s = "snd (run (throttle I) xs)"
  have int: "intervalMs ?s = I" by (simp add: throttle_def)
  have pt: "pending_timed ?s"
    by (rule pending_timed_run) (simp add: pending_timed_def throttle_def)
  have lastq: "\<And>l. lastInvokedAt ?s = Some l \<Longrightarrow> l + I \<le> t"
  proof -
    fix l assume "lastInvokedAt ?s = Some l"
    from last_run [OF this] have "l \<in> fst ` set (fst (run (throttle I) xs))"
      by (simp add: throttle_def)
    then show "l + I \<le> t" using quiet by (auto simp: forwards_def)
  qed
  have pendq: "\<And>l x. pendingArgs ?s = Some x \<Longrightarrow> lastInvokedAt ?s = Some l \<Longrightarrow> l + I + I \<le> t"
  proof -
    fix l x assume "pendingArgs ?s = Some x" "lastInvokedAt ?s = Some l"
    then have "(l + I, x) \<in> set (fst (settle ?s))"
      using int by (simp add: settle_def deadline_def fire_def)
    then show "l + I + I \<le> t" using quiet [of "(l + I, x)"] by (simp add: forwards_def)
  qed
  have "fst (observe t e (snd (advance t ?s))) = [e]"
  proof (cases "pendingArgs ?s")
    case None
    then have "advance t ?s = ([], ?s)" by (simp add: advance_def deadline_def)
    moreover have "elapsed t ?s"
      using lastq int by (auto simp: elapsed_def split: option.splits)
    ultimately show ?thesis using int I by (simp add: observe_def)
  next
    case (Some x)
    then obtain l where l: "lastInvokedAt ?s = Some l"
      using pt by (auto simp: pending_timed_def)
    have far: "l + I + I \<le> t" by (rule pendq [OF Some l])
    then have "l + I < t" using I by simp
    then have adv: "snd (advance t ?s) = ?s\<lparr>lastInvokedAt := Some (l + I), pendingArgs := None\<rparr>"
      using Some l int by (simp add: advance_def deadline_def fire_def)
    show ?thesis
      using far int I unfolding adv by (simp add: observe_def elapsed_def)
  qed
  then show ?thesis
    by (simp add: forwards_append forwards_Cons)
qed

text \<open>An event followed by nothing for more than an interval is forwarded within the
  interval.\<close>

lemma pending_fires:
  assumes "pendingArgs s = Some e" "lastInvokedAt s = Some l"
    and "\<And>c. c \<in> set ys \<Longrightarrow> l + intervalMs s < fst c"
  shows "(l + intervalMs s, e) \<in> set (forwards s ys)"
proof (cases ys)
  case Nil
  then show ?thesis using assms(1,2)
    by (simp add: forwards_Nil settle_def deadline_def fire_def)
next
  case (Cons y ys')
  obtain t2 e2 where y: "y = (t2, e2)" by (cases y)
  have "l + intervalMs s < t2" using assms(3)[of y] Cons y by simp
  then have "fst (advance t2 s) = [(l + intervalMs s, e)]"
    using assms(1,2) by (simp add: advance_def deadline_def fire_def)
  then show ?thesis by (simp add: Cons y forwards_Cons)
qed

lemma last_of_burst_forwarded:
  assumes I: "0 < I"
    and srt: "sorted (map fst (xs @ (t, e) # ys))"
    and gap: "\<And>c. c \<in> set ys \<Longrightarrow> t + I < fst c"
  shows "\<exists>t'. t \<le> t' \<and> t' \<le> t + I \<and> (t', e) \<in> set (forwards (throttle I) (xs @ (t, e) # ys))"
proof -
  let ?s = "snd (run (throttle I) xs)"
  let ?a = "snd (advance t ?s)"
  let ?b = "snd (observe t e ?a)"
  have int: "intervalMs ?s = I" by (simp add: throttle_def)
  have xs_le: "\<And>c. c \<in> set xs \<Longrightarrow> fst c \<le> t"
    using srt by (auto simp: sorted_append)
  have bound: "\<And>l. lastInvokedAt ?s = Some l \<Longrightarrow> l \<le> t"
    using last_bounded_run [of "throttle I" t xs] xs_le by (simp add: throttle_def)
  have fw: "forwards (throttle I) (xs @ (t, e) # ys) =
      fst (run (throttle I) xs) @ fst (advance t ?s) @ map (Pair t) (fst (observe t e ?a)) @
      forwards ?b ys"
    by (simp add: forwards_append forwards_Cons)
  show ?thesis
  proof (cases "fst (observe t e ?a) = [e]")
    case True
    then have "(t, e) \<in> set (forwards (throttle I) (xs @ (t, e) # ys))"
      by (simp add: fw)
    then show ?thesis using I by (intro exI [of _ t]) simp
  next
    case False
    then obtain l where pb: "pendingArgs ?b = Some e" and lb: "lastInvokedAt ?b = Some l"
      and lt: "t - l < I"
      using int I
      by (auto simp: observe_def elapsed_def split: if_splits option.splits)
    have "l \<le> t"
      using last_bounded_step [of ?s t t e l] bound lb by blast
    have ib: "intervalMs ?b = I" using int by simp
    have "(l + intervalMs ?b, e) \<in> set (forwards ?b ys)"
    proof (rule pending_fires [OF pb lb])
      fix c assume "c \<in> set ys"
      then show "l + intervalMs ?b < fst c"
        using gap [of c] \<open>l \<le> t\<close> ib by simp
    qed
    then have "(l + I, e) \<in> set (forwards (throttle I) (xs @ (t, e) # ys))"
      using ib by (simp add: fw)
    moreover have "t \<le> l + I" "l + I \<le> t + I" using lt \<open>l \<le> t\<close> by simp_all
    ultimately show ?thesis by blast
  qed
qed

text \<open>The throttle forwards a subsequence of what it observes, and the first event at
  once.\<close>

lemma forwards_subseq_pending:
  "intervalMs st \<noteq> 0 \<or> pendingArgs st = None \<Longrightarrow>
   subseq (map snd (forwards st tr))
     ((case pendingArgs st of None \<Rightarrow> [] | Some x \<Rightarrow> [x]) @ map snd tr)"
proof (induction tr arbitrary: st)
  case Nil
  then show ?case
    by (auto simp: forwards_Nil settle_def deadline_def fire_def split: option.splits)
next
  case (Cons y ys)
  obtain t e where y: "y = (t, e)" by (cases y)
  let ?a = "snd (advance t st)"
  let ?b = "snd (observe t e ?a)"
  have inv: "intervalMs ?b \<noteq> 0 \<or> pendingArgs ?b = None"
    using Cons.prems
    by (auto simp: advance_def observe_def fire_def deadline_def split: option.splits if_splits)
  note IH = Cons.IH [OF inv]
  have step: "subseq (map snd (fst (advance t st)) @ fst (observe t e ?a) @
                (case pendingArgs ?b of None \<Rightarrow> [] | Some x \<Rightarrow> [x]))
              ((case pendingArgs st of None \<Rightarrow> [] | Some x \<Rightarrow> [x]) @ [e])"
    using Cons.prems
    by (auto simp: advance_def observe_def fire_def deadline_def split: option.splits if_splits)
  have "subseq ((map snd (fst (advance t st)) @ fst (observe t e ?a)) @ map snd (forwards ?b ys))
          ((map snd (fst (advance t st)) @ fst (observe t e ?a)) @
           ((case pendingArgs ?b of None \<Rightarrow> [] | Some x \<Rightarrow> [x]) @ map snd ys))"
    using IH by (simp only: subseq_append_iff) blast
  also have "subseq \<dots> (((case pendingArgs st of None \<Rightarrow> [] | Some x \<Rightarrow> [x]) @ [e]) @ map snd ys)"
    using step by (simp only: append_assoc [symmetric]) (rule list_emb_append_mono, simp_all)
  finally show ?case
    by (simp add: y forwards_Cons comp_def)
qed

lemma forwards_subseq:
  "subseq (map snd (forwards (throttle n) tr)) (map snd tr)"
  using forwards_subseq_pending [of "throttle n" tr] by (simp add: throttle_def)

lemma forwards_first:
  "n \<noteq> 0 \<Longrightarrow> take 1 (forwards (throttle n) tr) = take 1 tr"
proof (cases tr)
  case Nil
  then show ?thesis
    by (simp add: forwards_Nil settle_def deadline_def throttle_def)
next
  case (Cons y ys)
  obtain t e where y: "y = (t, e)" by (cases y)
  assume "n \<noteq> 0"
  then show ?thesis
    by (simp add: Cons y forwards_Cons advance_def deadline_def observe_def elapsed_def
        throttle_def)
qed

lemma ex_burst_forwards:
  "throttle_forwards 100 ex_burst = [(0, ''a''), (100, ''b'')]"
  by (simp add: throttle_forwards_def ex_burst_def forwards_def throttle_def advance_def
      observe_def settle_def fire_def deadline_def elapsed_def Let_def)

section \<open>Scroll notifications with a throttle interval\<close>

lemma scrollHandler_throttled:
  assumes "get_prop p ''onScroll'' = JFunc cb" "get_prop p ''scrollEventThrottle'' = JNum n"
    "n \<noteq> 0"
  shows "scrollHandler p = Throttled HandleScroll (JNum n)"
  using assms by (simp add: scrollHandler_def js_and_def)

lemma scroll_notifications_throttled:
  assumes "get_prop p ''onScroll'' = JFunc cb" "get_prop p ''scrollEventThrottle'' = JNum n"
    "n \<noteq> 0"
  shows "scroll_notifications thr p tr = Some (map (\<lambda>(t, e). (t, Inr [(cb, e)])) (thr n tr))"
proof -
  have "\<And>e::'a. handleScroll p e = Inr [(cb, e)]"
    using assms(1) by (simp add: handleScroll_def)
  then show ?thesis
    by (simp add: scroll_notifications_def render_scroll_handler render_onScroll
        scrollHandler_throttled [OF assms])
qed

text \<open>
  C2. With an \<open>onScroll\<close> callback and a positive throttle interval, the scroll handler
  of the rendered element is the throttle around \<open>handleScroll\<close>: whatever throttle is
  used, the scroll notifications delivered to the widget go through it, and every call
  it forwards reaches the application's \<open>onScroll\<close> with the event unchanged. With the
  throttle of the specification, the calls are a subsequence of the notifications and
  the first notification is delivered at once.
\<close>

theorem scroll_flows_through_throttle:
  assumes "get_prop p ''onScroll'' = JFunc cb"
    and "get_prop p ''scrollEventThrottle'' = JNum n"
    and "0 < n"
  shows "element_handler (render p) ''onScrollShouldSetResponder''
           = Some (Throttled HandleScroll (JNum n)) \<and>
         scroll_notifications thr p tr
           = Some (map (\<lambda>(t, e). (t, Inr [(cb, e)])) (thr n tr)) \<and>
         subseq (map snd (throttle_forwards n tr)) (map snd tr) \<and>
         take 1 (throttle_forwards n tr) = take 1 tr"
  using assms scroll_notifications_throttled [of p cb n thr tr] forwards_subseq [of n tr]
    forwards_first [of n tr] scrollHandler_throttled [of p cb n]
  by (simp add: render_scroll_handler throttle_forwards_def)

theorem scroll_flows_through_throttle_witness:
  "get_prop ex_throttled ''onScroll'' = JFunc 7 \<and>
   get_prop ex_throttled ''scrollEventThrottle'' = JNum 100 \<and>
   scroll_notifications throttle_forwards ex_throttled ex_burst
     = Some [(0, Inr [(7, ''a'')]), (100, Inr [(7, ''b'')])]"
  using scroll_flows_through_throttle [of ex_throttled 7 100 throttle_forwards ex_burst]
  by (simp add: ex_throttled_def get_prop_def ex_burst_forwards)

text \<open>
  C3. For every time-ordered sequence of scroll events observed with a positive interval
  \<open>I\<close>, and every event \<open>e\<close> of it, at time \<open>t\<close>: if every call forwarded for the events
  before it lies at least \<open>I\<close> back (a quiet period), \<open>e\<close> is forwarded at \<open>t\<close>; any two
  forwarded calls are at least \<open>I\<close> apart; and if no event follows within \<open>I\<close> (it is the
  last of a burst), \<open>e\<close> is forwarded at some time between \<open>t\<close> and \<open>t + I\<close>.
\<close>

theorem throttle_guarantees:
  assumes "0 < I" and "sorted (map fst (xs @ (t, e) # ys))"
  shows "((\<forall>c \<in> set (throttle_forwards I xs). fst c + I \<le> t) \<longrightarrow>
            (t, e) \<in> set (throttle_forwards I (xs @ (t, e) # ys))) \<and>
         sorted_wrt (\<lambda>a b. I \<le> b - a) (map fst (throttle_forwards I (xs @ (t, e) # ys))) \<and>
         ((\<forall>c \<in> set ys. t + I < fst c) \<longrightarrow>
            (\<exists>t'. t \<le> t' \<and> t' \<le> t + I \<and>
                  (t', e) \<in> set (throttle_forwards I (xs @ (t, e) # ys))))"
  unfolding throttle_forwards_def
proof (intro conjI impI)
  assume "\<forall>c \<in> set (forwards (throttle I) xs). fst c + I \<le> t"
  then show "(t, e) \<in> set (forwards (throttle I) (xs @ (t, e) # ys))"
    using quiet_forwarded [OF assms(1), of xs t e ys] by blast
next
  show "sorted_wrt (\<lambda>a b. I \<le> b - a) (map fst (forwards (throttle I) (xs @ (t, e) # ys)))"
    using forwards_spaced [of "throttle I" I "xs @ (t, e) # ys"] assms(1)
    by (simp add: throttle_def)
next
  assume "\<forall>c \<in> set ys. t + I < fst c"
  then show "\<exists>t'. t \<le> t' \<and> t' \<le> t + I \<and>
                  (t', e) \<in> set (forwards (throttle I) (xs @ (t, e) # ys))"
    using last_of_burst_forwarded [OF assms] by blast
qed

theorem throttle_guarantees_witness:
  "sorted (map fst ex_bursts) \<and>
   (300, ''c'') \<in> set (throttle_forwards 100 ex_bursts) \<and>
   sorted_wrt (\<lambda>a b. (100::int) \<le> b - a) (map fst (throttle_forwards 100 ex_bursts)) \<and>
   (\<exists>t'. 50 \<le> t' \<and> t' \<le> 50 + 100 \<and> (t', ''b'') \<in> set (throttle_forwards 100 ex_bursts))"
  using throttle_guarantees [of 100 "[(0, ''a''), (50, ''b'')]" 300 "''c''" "[]"]
    throttle_guarantees [of 100 "[(0, ''a'')]" 50 "''b''" "[(300, ''c'')]"]
  by (simp add: ex_bursts_def throttle_forwards_def forwards_def throttle_def advance_def
      observe_def settle_def fire_def deadline_def elapsed_def Let_def)

section \<open>A negative throttle interval\<close>

lemma scrollHandler_truthy:
  assumes "truthy (get_prop p ''onScroll'')" "get_prop p ''scrollEventThrottle'' = JNum n"
    "n \<noteq> 0"
  shows "scrollHandler p = Throttled HandleScroll (JNum n)"
  using assms by (simp add: scrollHandler_def js_and_def)

lemma scrollHandler_falsy:
  assumes "\<not> truthy (get_prop p ''onScroll'')" "get_prop p ''scrollEventThrottle'' = JNum n"
    "n \<noteq> 0"
  shows "scrollHandler p = Noop"
  using assms by (simp add: scrollHandler_def js_and_def)

lemma handleScroll_raises:
  "(handleScroll p e = Inl TypeError) =
     (truthy (get_prop p ''onScroll'') \<and> (\<forall>cb. get_prop p ''onScroll'' \<noteq> JFunc cb))"
  by (cases "get_prop p ''onScroll''") (simp_all add: handleScroll_def)

text \<open>
  C7, as stated: an interval of -5 reaches the throttle as -5, not as 0; and a
  configuration with that interval whose \<open>onScroll\<close> is a string makes the widget raise
  on a scroll event.
\<close>

theorem negative_interval_counterexample:
  "element_handler (render ex_negative) ''onScrollShouldSetResponder''
     = Some (Throttled HandleScroll (JNum (- 5))) \<and>
   element_handler (render ex_negative) ''onScrollShouldSetResponder''
     \<noteq> Some (Throttled HandleScroll (JNum 0)) \<and>
   scroll_notifications throttle_forwards ex_negative_bad [(0, ''a'')]
     = Some [(0, Inl TypeError)]"
  by (simp add: scroll_notifications_def render_scroll_handler render_onScroll scrollHandler_def
      js_and_def get_prop_def ex_negative_def ex_negative_bad_def handleScroll_def
      throttle_forwards_def forwards_def throttle_def advance_def observe_def settle_def
      fire_def deadline_def elapsed_def Let_def)

text \<open>
  C7, amended. A negative throttle interval is not clamped: when \<open>onScroll\<close> is truthy,
  \<open>render\<close> hands the interval unchanged to the throttle, and every call the throttle
  forwards goes to \<open>handleScroll\<close>. With the throttle of the specification every event
  of a time-ordered sequence is forwarded at once, so the widget behaves as unthrottled:
  each event calls \<open>onScroll\<close> once, unchanged, when \<open>onScroll\<close> is a function. A
  forwarded event raises exactly when \<open>onScroll\<close> is truthy and not a function; when
  \<open>onScroll\<close> is falsy the scroll handler is the empty function, nothing is called and
  nothing raises.
\<close>

theorem negative_interval_passed_through:
  assumes "get_prop p ''scrollEventThrottle'' = JNum n" and "n < 0"
    and "sorted (map fst tr)"
  shows "(truthy (get_prop p ''onScroll'') \<longrightarrow>
            element_handler (render p) ''onScrollShouldSetResponder''
              = Some (Throttled HandleScroll (JNum n)) \<and>
            scroll_notifications thr p tr
              = Some (map (\<lambda>(t, e). (t, handleScroll p e)) (thr n tr))) \<and>
         throttle_forwards n tr = tr \<and>
         (get_prop p ''onScroll'' = JFunc cb \<longrightarrow>
            scroll_notifications throttle_forwards p tr
              = Some (map (\<lambda>(t, e). (t, Inr [(cb, e)])) tr)) \<and>
         (handleScroll p e = Inl TypeError) =
            (truthy (get_prop p ''onScroll'') \<and> (\<forall>cb. get_prop p ''onScroll'' \<noteq> JFunc cb)) \<and>
         (\<not> truthy (get_prop p ''onScroll'') \<longrightarrow>
            element_handler (render p) ''onScrollShouldSetResponder'' = Some Noop \<and>
            scroll_notifications thr p tr = Some [])"
proof (intro conjI impI)
  assume t: "truthy (get_prop p ''onScroll'')"
  have h: "scrollHandler p = Throttled HandleScroll (JNum n)"
    using scrollHandler_truthy [OF t assms(1)] assms(2) by simp
  show "element_handler (render p) ''onScrollShouldSetResponder''
          = Some (Throttled HandleScroll (JNum n))"
    by (simp add: render_scroll_handler h)
  show "scroll_notifications thr p tr
          = Some (map (\<lambda>(t, e). (t, handleScroll p e)) (thr n tr))"
    by (simp add: scroll_notifications_def render_scroll_handler render_onScroll h)
next
  show "throttle_forwards n tr = tr"
    using forwards_negative [OF assms(2,3)] by (simp add: throttle_forwards_def)
next
  assume f: "get_prop p ''onScroll'' = JFunc cb"
  have "n \<noteq> 0" using assms(2) by simp
  from scroll_notifications_throttled [OF f assms(1) this, of throttle_forwards tr]
  show "scroll_notifications throttle_forwards p tr
          = Some (map (\<lambda>(t, e). (t, Inr [(cb, e)])) tr)"
    using forwards_negative [OF assms(2,3)] by (simp add: throttle_forwards_def)
next
  show "(handleScroll p e = Inl TypeError) =
          (truthy (get_prop p ''onScroll'') \<and> (\<forall>cb. get_prop p ''onScroll'' \<noteq> JFunc cb))"
    by (rule handleScroll_raises)
next
  assume nt: "\<not> truthy (get_prop p ''onScroll'')"
  have h: "scrollHandler p = Noop"
    using scrollHandler_falsy [OF nt assms(1)] assms(2) by simp
  show "element_handler (render p) ''onScrollShouldSetResponder'' = Some Noop"
    by (simp add: render_scroll_handler h)
  show "scroll_notifications thr p tr = Some []"
    by (simp add: scroll_notifications_def render_scroll_handler render_onScroll h)
qed

theorem negative_interval_passed_through_witness:
  "get_prop ex_negative ''scrollEventThrottle'' = JNum (- 5) \<and>
   get_prop ex_negative ''onScroll'' = JFunc 7 \<and>
   sorted (map fst ex_burst) \<and>
   element_handler (render ex_negative) ''onScrollShouldSetResponder''
     = Some (Throttled HandleScroll (JNum (- 5))) \<and>
   scroll_notifications throttle_forwards ex_negative ex_burst
     = Some [(0, Inr [(7, ''a'')]), (50, Inr [(7, ''b'')])] \<and>
   \<not> truthy (get_prop ex_negative_silent ''onScroll'') \<and>
   scroll_notifications throttle_forwards ex_negative_silent ex_burst = Some []"
  using negative_interval_passed_through
      [of ex_negative "- 5" ex_burst throttle_forwards 7 "''a''"]
    negative_interval_passed_through
      [of ex_negative_silent "- 5" ex_burst throttle_forwards 7 "''a''"]
  by (simp add: ex_negative_def ex_negative_silent_def get_prop_def ex_burst_def
      handleScroll_def)

section \<open>Responder ownership\<close>

lemma owner_activeD: "owner_is_active st \<Longrightarrow> ownerId st = Some w \<Longrightarrow> phase st w = Active"
  by (simp add: owner_is_active_def)

lemma active_ownerD: "owner_is_active st \<Longrightarrow> phase st w = Active \<Longrightarrow> ownerId st = Some w"
  by (simp add: owner_is_active_def)

lemma owner_is_activeI:
  "(\<And>w. (phase st w = Active) = (ownerId st = Some w)) \<Longrightarrow> owner_is_active st"
  by (simp add: owner_is_active_def)

lemma owner_is_active_step:
  assumes "owner_is_active st"
  shows "owner_is_active (snd (arbiter_step pol ev st))"
proof (rule owner_is_activeI)
  fix w
  have inv: "\<And>u. (phase st u = Active) = (ownerId st = Some u)"
    using assms by (simp add: owner_is_active_def)
  have other: "\<And>u p. phase st u = p \<Longrightarrow> p \<noteq> Active \<Longrightarrow> ownerId st \<noteq> Some u"
    using inv by auto
  show "(phase (snd (arbiter_step pol ev st)) w = Active)
          = (ownerId (snd (arbiter_step pol ev st)) = Some w)"
  proof (cases ev)
    case (TouchStart v)
    show ?thesis
    proof (cases "phase st v = Idle \<and> shouldSetResponder pol v")
      case True
      then have "ownerId st \<noteq> Some v" using other [of v Idle] by simp
      then show ?thesis using True TouchStart inv [of w] by auto
    next
      case False
      then show ?thesis using TouchStart inv [of w] by auto
    qed
  next
    case (TouchMove v far)
    show ?thesis
    proof (cases "phase st v = Claiming \<and> far")
      case False
      then show ?thesis using TouchMove inv [of w] by auto
    next
      case True
      then have nv: "ownerId st \<noteq> Some v" using other [of v Claiming] by simp
      show ?thesis
      proof (cases "ownerId st")
        case None
        then show ?thesis using True TouchMove inv [of w]
          by (simp add: tryClaim_def grant_def) 
      next
        case (Some owner)
        then have act: "phase st owner = Active" using inv [of owner] by simp
        have ne: "owner \<noteq> v" using nv Some by simp
        show ?thesis
          using True TouchMove inv [of w] Some act ne
          by (simp add: tryClaim_def requestTerminate_def grant_def reject_def) 
      qed
    qed
  next
    case (TouchEnd v)
    show ?thesis
    proof (cases "phase st v")
      case Active
      then show ?thesis using TouchEnd inv [of w] inv [of v] by (simp add: release_def)
    next
      case Claiming
      then have "ownerId st \<noteq> Some v" using other [of v Claiming] by simp
      then show ?thesis using Claiming TouchEnd inv [of w] by auto
    next
      case Idle
      then show ?thesis using TouchEnd inv [of w] by simp
    next
      case Terminating
      then show ?thesis using TouchEnd inv [of w] by simp
    qed
  next
    case (Unmount v)
    show ?thesis
    proof (cases "phase st v = Active")
      case True
      then show ?thesis using Unmount inv [of w] inv [of v] by (simp add: release_def)
    next
      case False
      then have "ownerId st \<noteq> Some v" using inv [of v] by simp
      then show ?thesis using False Unmount inv [of w]
        by (cases "phase st v") auto
    qed
  qed
qed

lemma owner_is_active_run:
  "owner_is_active st \<Longrightarrow> owner_is_active (snd (arbiter_run pol st evs))"
proof (induction evs arbitrary: st)
  case Nil
  then show ?case by simp
next
  case (Cons ev evs)
  from Cons.IH [OF owner_is_active_step [OF Cons.prems, of pol ev]]
  show ?case by simp
qed

lemma owner_is_active_initial: "owner_is_active initial_registry"
  by (simp add: owner_is_active_def initial_registry_def)

lemma ownership_lost_notified:
  assumes "owner_is_active st" and "ownerId st = Some w"
    and "ownerId (snd (arbiter_step pol ev st)) \<noteq> Some w"
  shows "OnResponderTerminate w \<in> set (fst (arbiter_step pol ev st)) \<or>
         OnResponderRelease w \<in> set (fst (arbiter_step pol ev st))"
proof (cases ev)
  case (TouchStart v)
  then show ?thesis using assms(2,3) by (auto split: if_splits)
next
  case (TouchMove v far)
  then show ?thesis
    using assms(2,3)
    by (auto simp: tryClaim_def requestTerminate_def grant_def reject_def split: if_splits)
next
  case (TouchEnd v)
  then show ?thesis
    using assms(2,3) by (cases "phase st v") (auto simp: release_def split: if_splits)
next
  case (Unmount v)
  then show ?thesis
    using assms(2,3) by (cases "phase st v") (auto simp: release_def split: if_splits)
qed

lemma release_only_own:
  "OnResponderRelease w \<in> set (fst (arbiter_step pol ev st)) \<Longrightarrow> ev = TouchEnd w \<or> ev = Unmount w"
  by (cases ev)
     (auto simp: tryClaim_def requestTerminate_def grant_def reject_def release_def
        split: option.splits phase.splits if_splits)

text \<open>
  C4. After every sequence of touch events over the widgets that share the registry, at
  most one widget is in phase \<open>Active\<close>, and it is the owner of the slot; and whenever a
  further event takes the slot from its owner, that widget is notified in the same step:
  it receives \<open>onResponderTerminate\<close>, or it gave the slot up itself, by its own touch end
  or unmount, and receives \<open>onResponderRelease\<close>.
\<close>

theorem responder_exclusive:
  "(phase (snd (arbiter_run pol initial_registry evs)) a = Active \<and>
    phase (snd (arbiter_run pol initial_registry evs)) b = Active \<longrightarrow> a = b) \<and>
   (phase (snd (arbiter_run pol initial_registry evs)) a = Active)
     = (ownerId (snd (arbiter_run pol initial_registry evs)) = Some a) \<and>
   (ownerId (snd (arbiter_run pol initial_registry evs)) = Some w \<and>
    ownerId (snd (arbiter_step pol ev (snd (arbiter_run pol initial_registry evs)))) \<noteq> Some w \<longrightarrow>
      OnResponderTerminate w
        \<in> set (fst (arbiter_step pol ev (snd (arbiter_run pol initial_registry evs)))) \<or>
      OnResponderRelease w
        \<in> set (fst (arbiter_step pol ev (snd (arbiter_run pol initial_registry evs)))) \<and>
      (ev = TouchEnd w \<or> ev = Unmount w))"
proof -
  let ?st = "snd (arbiter_run pol initial_registry evs)"
  have inv: "owner_is_active ?st"
    by (rule owner_is_active_run [OF owner_is_active_initial])
  have one: "phase ?st a = Active \<and> phase ?st b = Active \<longrightarrow> a = b"
    using active_ownerD [OF inv, of a] active_ownerD [OF inv, of b] by auto
  have own: "(phase ?st a = Active) = (ownerId ?st = Some a)"
    using inv by (simp add: owner_is_active_def)
  have lost: "ownerId ?st = Some w \<and> ownerId (snd (arbiter_step pol ev ?st)) \<noteq> Some w \<longrightarrow>
      OnResponderTerminate w \<in> set (fst (arbiter_step pol ev ?st)) \<or>
      OnResponderRelease w \<in> set (fst (arbiter_step pol ev ?st)) \<and>
      (ev = TouchEnd w \<or> ev = Unmount w)"
    using ownership_lost_notified [OF inv, of w pol ev] release_only_own [of w pol ev ?st]
    by blast
  show ?thesis using one own lost by blast
qed

theorem responder_exclusive_witness:
  "phase (snd (arbiter_run permissive initial_registry ex_touches)) 1 = Active \<and>
   ownerId (snd (arbiter_run permissive initial_registry ex_touches)) = Some 1 \<and>
   ownerId (snd (arbiter_step permissive (TouchMove 2 True)
       (snd (arbiter_run permissive initial_registry ex_touches)))) = Some 2 \<and>
   OnResponderTerminate 1
     \<in> set (fst (arbiter_step permissive (TouchMove 2 True)
          (snd (arbiter_run permissive initial_registry ex_touches))))"
  using responder_exclusive [of permissive ex_touches 1 1 1 "TouchMove 2 True"]
  by (simp add: ex_touches_def permissive_def initial_registry_def tryClaim_def
      requestTerminate_def grant_def reject_def)

end
